theory Spec2Isabelle
  imports Complex_Main "HOL-Library.AList"
begin

section \<open>Data model\<close>

text \<open>
  The script \<^verbatim>\<open>champion_round_based_analysis.py\<close> builds a two-level dictionary
  \<^verbatim>\<open>results[round][champion] = {'count': .., 'avg_place': ..}\<close>. The outer keys are the
  string \<^verbatim>\<open>'total'\<close> and the integer round numbers; the inner keys are strings: unit
  names and, again, \<^verbatim>\<open>'total'\<close>. A Python dictionary keeps its keys in insertion order,
  so a dictionary is an association list here: \<open>AList.update\<close> overwrites the value of
  a key that is present, at its position, and appends a key that is absent, as
  \<^verbatim>\<open>d[k] = v\<close> does.

  Placements are Python integers (unbounded), so the running sums are exact. The one
  division of the program, \<^verbatim>\<open>/=\<close> in the last loop, is read over the rationals; it
  raises \<^verbatim>\<open>ZeroDivisionError\<close> on a zero count, and a lookup of an absent key raises
  \<^verbatim>\<open>KeyError\<close>.
\<close>

datatype error = KeyError | ZeroDivisionError

datatype rkey = TotalKey | Round int

record aggregate =
  count :: int
  avg_place :: rat

type_synonym bucket = "(string \<times> aggregate) list"

type_synonym results = "(rkey \<times> bucket) list"

text \<open>A document of the aggregation's output: the fields of the \<^verbatim>\<open>$project\<close> stage.\<close>

record player =
  num_units :: int
  units :: "string list"
  last_round :: int
  placement :: int

text \<open>The stored documents, as far as the pipeline reads them.\<close>

record tft_unit =
  character_id :: string

record participant =
  participant_units :: "tft_unit list"
  participant_last_round :: int
  participant_placement :: int

record match_doc =
  queue_id :: int
  participants :: "participant list"

section \<open>The map stage: the aggregation pipeline\<close>

definition excluded_rounds :: "int list" where
  "excluded_rounds = [11, 15, 18, 22, 25, 29, 32, 36, 39, 43, 46, 50]"

text \<open>
  The stages in the order of the list \<^verbatim>\<open>pipeline\<close>: \<^verbatim>\<open>$match\<close> on the queue,
  \<^verbatim>\<open>$unwind\<close> of the participants, \<^verbatim>\<open>$addFields\<close> of \<^verbatim>\<open>num_units\<close>, \<^verbatim>\<open>$match\<close> on it,
  \<^verbatim>\<open>$match\<close> with \<^verbatim>\<open>$nin\<close> on the last round, and the \<^verbatim>\<open>$map\<close> to \<^verbatim>\<open>character_id\<close>
  with the \<^verbatim>\<open>$project\<close>.
\<close>

definition pipeline :: "match_doc list \<Rightarrow> player list" where
  "pipeline ms =
     map (\<lambda>(p, n). \<lparr>num_units = n,
                     units = map character_id (participant_units p),
                     last_round = participant_last_round p,
                     placement = participant_placement p\<rparr>)
       (filter (\<lambda>(p, n). participant_last_round p \<notin> set excluded_rounds)
         (filter (\<lambda>(p, n). 6 \<le> n)
           (map (\<lambda>p. (p, int (length (participant_units p))))
             (concat (map participants
               (filter (\<lambda>m. queue_id m = 1100) ms))))))"

section \<open>The reduce stage\<close>

definition results_init :: results where
  "results_init = [(TotalKey, [(''total'', \<lparr>count = 0, avg_place = 0\<rparr>)])]"

text \<open>\<^verbatim>\<open>x.split('_')\<close>: never empty; \<^verbatim>\<open>[-1]\<close> is its last element.\<close>

fun str_split :: "char \<Rightarrow> string \<Rightarrow> string list" where
  "str_split d [] = [[]]"
| "str_split d (c # cs) =
     (if c = d then [] # str_split d cs
      else (case str_split d cs of [] \<Rightarrow> [[c]] | w # ws \<Rightarrow> (c # w) # ws))"

definition unit_name :: "string \<Rightarrow> string" where
  "unit_name x = last (str_split CHR ''_'' x)"

definition keys_list :: "player \<Rightarrow> string list" where
  "keys_list p = map unit_name (units p)"

text \<open>
  \<^verbatim>\<open>results[r][c]['count'] += 1\<close> and \<^verbatim>\<open>results[r][c]['avg_place'] += place\<close>: both
  subscripts must be present.
\<close>

definition increment :: "rkey \<Rightarrow> string \<Rightarrow> int \<Rightarrow> results \<Rightarrow> error + results" where
  "increment r c place t =
     (case map_of t r of
        None \<Rightarrow> Inl KeyError
      | Some b \<Rightarrow>
         (case map_of b c of
            None \<Rightarrow> Inl KeyError
          | Some a \<Rightarrow>
             Inr (AList.update r
                   (AList.update c
                     (a\<lparr>count := count a + 1, avg_place := avg_place a + of_int place\<rparr>) b) t)))"

text \<open>\<^verbatim>\<open>results[r][c] = {'count': 1, 'avg_place': place}\<close>\<close>

definition create :: "rkey \<Rightarrow> string \<Rightarrow> int \<Rightarrow> results \<Rightarrow> error + results" where
  "create r c place t =
     (case map_of t r of
        None \<Rightarrow> Inl KeyError
      | Some b \<Rightarrow>
         Inr (AList.update r
               (AList.update c \<lparr>count = 1, avg_place = of_int place\<rparr> b) t))"

text \<open>The \<^verbatim>\<open>if not key in results[r]: .. else: ..\<close> of the key loop.\<close>

definition add_key :: "rkey \<Rightarrow> int \<Rightarrow> string \<Rightarrow> results \<Rightarrow> error + results" where
  "add_key r place key t =
     (case map_of t r of
        None \<Rightarrow> Inl KeyError
      | Some b \<Rightarrow>
         (if map_of b key = None then create r key place t
          else increment r key place t))"

text \<open>\<^verbatim>\<open>for key in keys_list\<close>: the round's bucket first, then the bucket \<^verbatim>\<open>'total'\<close>.\<close>

fun add_keys :: "int \<Rightarrow> int \<Rightarrow> string list \<Rightarrow> results \<Rightarrow> error + results" where
  "add_keys lr place [] t = Inr t"
| "add_keys lr place (key # keys) t =
     (case add_key (Round lr) place key t of
        Inl e \<Rightarrow> Inl e
      | Inr t1 \<Rightarrow>
         (case add_key TotalKey place key t1 of
            Inl e \<Rightarrow> Inl e
          | Inr t2 \<Rightarrow> add_keys lr place keys t2))"

text \<open>The \<^verbatim>\<open>if not last_round in results: .. else: ..\<close> of the round's rollup.\<close>

definition add_round :: "int \<Rightarrow> int \<Rightarrow> results \<Rightarrow> error + results" where
  "add_round lr place t =
     (if map_of t (Round lr) = None
      then Inr (AList.update (Round lr) [(''total'', \<lparr>count = 1, avg_place = of_int place\<rparr>)] t)
      else increment (Round lr) ''total'' place t)"

text \<open>One iteration of \<^verbatim>\<open>for player in query\<close>; \<^verbatim>\<open>continue\<close> returns the table as it is.\<close>

definition reducer_step :: "results \<Rightarrow> player \<Rightarrow> error + results" where
  "reducer_step t p =
     (if int (card (set (units p))) \<noteq> num_units p then Inr t
      else
        (case increment TotalKey ''total'' (placement p) t of
           Inl e \<Rightarrow> Inl e
         | Inr t1 \<Rightarrow>
            (case add_round (last_round p) (placement p) t1 of
               Inl e \<Rightarrow> Inl e
             | Inr t2 \<Rightarrow> add_keys (last_round p) (placement p) (keys_list p) t2)))"

fun reducer :: "results \<Rightarrow> player list \<Rightarrow> error + results" where
  "reducer t [] = Inr t"
| "reducer t (p # ps) =
     (case reducer_step t p of Inl e \<Rightarrow> Inl e | Inr t' \<Rightarrow> reducer t' ps)"

section \<open>The final loop: sums to averages\<close>

fun finalize_bucket :: "bucket \<Rightarrow> error + bucket" where
  "finalize_bucket [] = Inr []"
| "finalize_bucket ((nested_key, a) # b) =
     (if count a = 0 then Inl ZeroDivisionError
      else
        (case finalize_bucket b of
           Inl e \<Rightarrow> Inl e
         | Inr b' \<Rightarrow>
            Inr ((nested_key, a\<lparr>avg_place := avg_place a / of_int (count a)\<rparr>) # b')))"

fun finalizer :: "results \<Rightarrow> error + results" where
  "finalizer [] = Inr []"
| "finalizer ((key, dictionary) # t) =
     (case finalize_bucket dictionary of
        Inl e \<Rightarrow> Inl e
      | Inr d' \<Rightarrow>
         (case finalizer t of
            Inl e \<Rightarrow> Inl e
          | Inr t' \<Rightarrow> Inr ((key, d') # t')))"

text \<open>The script from the seeded dictionary to the dictionary that is written out.\<close>

definition analysis :: "player list \<Rightarrow> error + results" where
  "analysis query =
     (case reducer results_init query of Inl e \<Rightarrow> Inl e | Inr t \<Rightarrow> finalizer t)"

text \<open>Reading \<^verbatim>\<open>results[r][c]\<close> where it is present.\<close>

definition lookup :: "results \<Rightarrow> rkey \<Rightarrow> string \<Rightarrow> aggregate option" where
  "lookup t r c = (case map_of t r of None \<Rightarrow> None | Some b \<Rightarrow> map_of b c)"

section \<open>Notions used to state the properties\<close>

text \<open>A record passes the duplicate check of the loop when the \<^verbatim>\<open>continue\<close> is not taken.\<close>

definition accepted :: "player \<Rightarrow> bool" where
  "accepted p \<longleftrightarrow> int (card (set (units p))) = num_units p"

text \<open>
  The outer key \<^verbatim>\<open>'total'\<close> is present, and every bucket has the inner key
  \<^verbatim>\<open>'total'\<close>.
\<close>

definition has_totals :: "results \<Rightarrow> bool" where
  "has_totals t \<longleftrightarrow>
     map_of t TotalKey \<noteq> None \<and> list_all (\<lambda>(r, b). map_of b ''total'' \<noteq> None) t"

text \<open>No key occurs twice, as in any Python dictionary.\<close>

definition distinct_keys :: "results \<Rightarrow> bool" where
  "distinct_keys t \<longleftrightarrow>
     distinct (map fst t) \<and> list_all (\<lambda>(r, b). distinct (map fst b)) t"

text \<open>
  What one create-or-increment does to the entry it addresses, and to the dictionary read
  as a function of the two keys.
\<close>

definition touch :: "int \<Rightarrow> aggregate option \<Rightarrow> aggregate option" where
  "touch place x =
     Some (case x of
             None \<Rightarrow> \<lparr>count = 1, avg_place = of_int place\<rparr>
           | Some a \<Rightarrow> a\<lparr>count := count a + 1, avg_place := avg_place a + of_int place\<rparr>)"

type_synonym cells = "rkey \<Rightarrow> string \<Rightarrow> aggregate option"

definition touch_cell :: "int \<Rightarrow> rkey \<times> string \<Rightarrow> cells \<Rightarrow> cells" where
  "touch_cell place rc f = (\<lambda>r c. if (r, c) = rc then touch place (f r c) else f r c)"

text \<open>The entries an accepted record writes to, in the order of the loop body.\<close>

definition touched :: "player \<Rightarrow> (rkey \<times> string) list" where
  "touched p =
     (TotalKey, ''total'') # (Round (last_round p), ''total'') #
     concat (map (\<lambda>k. [(Round (last_round p), k), (TotalKey, k)]) (keys_list p))"

definition events :: "player list \<Rightarrow> ((rkey \<times> string) \<times> int) list" where
  "events ps =
     concat (map (\<lambda>p. map (\<lambda>rc. (rc, placement p)) (touched p)) (filter accepted ps))"

text \<open>The placements written to one entry, and the sums they leave there.\<close>

definition hits :: "((rkey \<times> string) \<times> int) list \<Rightarrow> rkey \<Rightarrow> string \<Rightarrow> int list" where
  "hits evs r c = map snd (filter (\<lambda>(rc, place). rc = (r, c)) evs)"

definition tally :: "player list \<Rightarrow> cells" where
  "tally ps r c =
     (if hits (events ps) r c = [] \<and> (r, c) \<noteq> (TotalKey, ''total'') then None
      else Some \<lparr>count = int (length (hits (events ps) r c)),
                 avg_place = of_int (sum_list (hits (events ps) r c))\<rparr>)"

text \<open>
  \<open>step_to t res f\<close>: the step ends without an exception in a dictionary that has its
  totals, has no key twice if \<open>t\<close> had none, and reads as \<open>f\<close>.
\<close>

definition step_to :: "results \<Rightarrow> error + results \<Rightarrow> cells \<Rightarrow> bool" where
  "step_to t res f \<longleftrightarrow>
     (case res of
        Inl e \<Rightarrow> False
      | Inr t' \<Rightarrow> has_totals t' \<and> (distinct_keys t \<longrightarrow> distinct_keys t') \<and> lookup t' = f)"

text \<open>The last loop, when no count is zero.\<close>

definition average :: "aggregate \<Rightarrow> aggregate" where
  "average a = a\<lparr>avg_place := avg_place a / of_int (count a)\<rparr>"

definition averaged :: "results \<Rightarrow> results" where
  "averaged t = map (\<lambda>(r, b). (r, map (\<lambda>(c, a). (c, average a)) b)) t"

definition nonzero :: "results \<Rightarrow> bool" where
  "nonzero t = list_all (\<lambda>(r, b). list_all (\<lambda>(c, a). count a \<noteq> 0) b) t"

text \<open>
  Two dictionaries are equal in Python when they have the same keys with equal values,
  in whatever order the keys were inserted: \<open>dict_of\<close> forgets the order. \<open>outcome\<close>
  is the result of a run up to that equality: the exception, or the dictionary.
\<close>

definition dict_of :: "results \<Rightarrow> rkey \<Rightarrow> (string \<Rightarrow> aggregate option) option" where
  "dict_of t r = map_option map_of (map_of t r)"

definition outcome ::
  "error + results \<Rightarrow> error + (rkey \<Rightarrow> (string \<Rightarrow> aggregate option) option)" where
  "outcome res = (case res of Inl e \<Rightarrow> Inl e | Inr t \<Rightarrow> Inr (dict_of t))"

text \<open>
  Modelled from the spec: the merge of two partial tables, which the script does not
  have. The specification describes it as the pairwise addition of count and placement
  sum per key; a key that only one table has keeps its aggregate.
\<close>

definition add_aggregates :: "aggregate \<Rightarrow> aggregate \<Rightarrow> aggregate" where
  "add_aggregates a a' =
     \<lparr>count = count a + count a', avg_place = avg_place a + avg_place a'\<rparr>"

fun merge_bucket :: "bucket \<Rightarrow> bucket \<Rightarrow> bucket" where
  "merge_bucket b [] = b"
| "merge_bucket b ((c, a) # b2) =
     merge_bucket
       (AList.update c (case map_of b c of None \<Rightarrow> a | Some a' \<Rightarrow> add_aggregates a' a) b) b2"

fun merge :: "results \<Rightarrow> results \<Rightarrow> results" where
  "merge t [] = t"
| "merge t ((r, b) # t2) =
     merge (AList.update r (case map_of t r of None \<Rightarrow> b | Some b' \<Rightarrow> merge_bucket b' b) t) t2"

definition combine :: "aggregate option \<Rightarrow> aggregate option \<Rightarrow> aggregate option" where
  "combine x y =
     (case y of
        None \<Rightarrow> x
      | Some a \<Rightarrow> Some (case x of None \<Rightarrow> a | Some a' \<Rightarrow> add_aggregates a' a))"

text \<open>A stored match without the participants that ended in round \<open>r\<close>.\<close>

definition without_round :: "int \<Rightarrow> match_doc \<Rightarrow> match_doc" where
  "without_round r m =
     m\<lparr>participants := filter (\<lambda>q. participant_last_round q \<noteq> r) (participants m)\<rparr>"

section \<open>Example inputs\<close>

definition example_query :: "player list" where
  "example_query =
     [\<lparr>num_units = 2, units = [''Ashe'', ''Jinx''], last_round = 5, placement = 2\<rparr>,
      \<lparr>num_units = 1, units = [''Ashe''], last_round = 5, placement = 4\<rparr>]"

definition single_query :: "player list" where
  "single_query = [\<lparr>num_units = 1, units = [''Ashe''], last_round = 5, placement = 4\<rparr>]"

definition duplicate_player :: player where
  "duplicate_player =
     \<lparr>num_units = 3, units = [''Ashe'', ''Ashe'', ''Jinx''], last_round = 5, placement = 2\<rparr>"

text \<open>A unit whose name, after the last underscore, is the word \<^verbatim>\<open>total\<close>.\<close>

definition total_named_query :: "player list" where
  "total_named_query =
     [\<lparr>num_units = 1, units = [''TFT_total''], last_round = 5, placement = 3\<rparr>]"

text \<open>Six different identifiers, two of them with the same name after the underscore.\<close>

definition same_name_player :: player where
  "same_name_player =
     \<lparr>num_units = 6,
      units = [''TFT3_Ashe'', ''TFT4_Ashe'', ''TFT4_Jinx'', ''TFT4_Garen'', ''TFT4_Lux'',
               ''TFT4_Zed''],
      last_round = 5, placement = 2\<rparr>"

definition six_units :: "tft_unit list" where
  "six_units = map (\<lambda>x. \<lparr>character_id = x\<rparr>)
     [''TFT4_Ashe'', ''TFT4_Jinx'', ''TFT4_Garen'', ''TFT4_Lux'', ''TFT4_Zed'', ''TFT4_Yone'']"

text \<open>A ranked match with one participant out in round 15 and one out in round 20.\<close>

definition example_matches :: "match_doc list" where
  "example_matches =
     [\<lparr>queue_id = 1100,
       participants =
         [\<lparr>participant_units = six_units, participant_last_round = 15,
           participant_placement = 7\<rparr>,
          \<lparr>participant_units = six_units, participant_last_round = 20,
           participant_placement = 3\<rparr>]\<rparr>]"

section \<open>Evaluating the script\<close>

lemmas script_defs =
  analysis_def results_init_def reducer_step_def increment_def create_def add_round_def
  add_key_def keys_list_def unit_name_def lookup_def

text \<open>
  C1. The two records with last round 5, placements 2 and 4 and units Ashe, Jinx and Ashe
  pass the duplicate check (their \<^verbatim>\<open>num_units\<close> are 2 and 1). The script finishes on
  them, and the written dictionary has count 2 and average 3 at \<^verbatim>\<open>[5]['Ashe']\<close>, count 1
  and average 2 at \<^verbatim>\<open>[5]['Jinx']\<close>, and count 2 and average 3 at \<^verbatim>\<open>[5]['total']\<close>,
  \<^verbatim>\<open>['total']['Ashe']\<close> and \<^verbatim>\<open>['total']['total']\<close>.
\<close>

theorem end_to_end_example:
  "\<exists>t. analysis example_query = Inr t
     \<and> lookup t (Round 5) ''Ashe'' = Some \<lparr>count = 2, avg_place = 3\<rparr>
     \<and> lookup t (Round 5) ''Jinx'' = Some \<lparr>count = 1, avg_place = 2\<rparr>
     \<and> lookup t (Round 5) ''total'' = Some \<lparr>count = 2, avg_place = 3\<rparr>
     \<and> lookup t TotalKey ''Ashe'' = Some \<lparr>count = 2, avg_place = 3\<rparr>
     \<and> lookup t TotalKey ''total'' = Some \<lparr>count = 2, avg_place = 3\<rparr>"
  by (simp add: example_query_def script_defs)

section \<open>What a step does to the dictionary\<close>

subsection \<open>Association lists\<close>

lemma list_all_update:
  "list_all P al \<Longrightarrow> P (k, v) \<Longrightarrow> list_all P (AList.update k v al)"
  by (induction al) auto

lemma lookup_update:
  "lookup (AList.update r b t) r' c = (if r' = r then map_of b c else lookup t r' c)"
  by (simp add: lookup_def update_conv')

lemma lookup_Some_outer:
  "lookup t r c = Some a \<Longrightarrow> \<exists>b. map_of t r = Some b \<and> map_of b c = Some a"
  by (auto simp: lookup_def split: option.splits)

lemma lookup_outer: "lookup t r c \<noteq> None \<Longrightarrow> map_of t r \<noteq> None"
  by (auto simp: lookup_def split: option.splits)

lemma has_totals_lookup:
  "has_totals t \<Longrightarrow> map_of t r = Some b \<Longrightarrow> lookup t r ''total'' \<noteq> None"
  by (auto simp: has_totals_def lookup_def list_all_iff dest!: map_of_SomeD)

lemma has_totals_update:
  assumes "has_totals t" "map_of b ''total'' \<noteq> None"
  shows "has_totals (AList.update r b t)"
  using assms by (auto simp: has_totals_def update_conv' intro!: list_all_update)

lemma distinct_keys_update:
  assumes "distinct_keys t" "distinct (map fst b)"
  shows "distinct_keys (AList.update r b t)"
  using assms by (auto simp: distinct_keys_def distinct_update intro!: list_all_update)

lemma distinct_keys_bucket:
  "distinct_keys t \<Longrightarrow> map_of t r = Some b \<Longrightarrow> distinct (map fst b)"
  by (auto simp: distinct_keys_def list_all_iff dest!: map_of_SomeD)

subsection \<open>One write to the dictionary\<close>

lemma step_toD:
  assumes "step_to t res f"
  obtains t' where "res = Inr t'" "has_totals t'" "distinct_keys t \<longrightarrow> distinct_keys t'"
    "lookup t' = f"
  using assms by (auto simp: step_to_def split: sum.splits)

text \<open>
  Every write of the loop body replaces one entry of one bucket that is present. It
  raises nothing, keeps the totals and the distinctness of the keys, and changes the one
  entry.
\<close>

lemma set_cell:
  assumes "has_totals t" "map_of t r = Some b"
  shows "step_to t (Inr (AList.update r (AList.update c a b) t))
           (\<lambda>r' c'. if (r', c') = (r, c) then Some a else lookup t r' c')"
proof -
  let ?t' = "AList.update r (AList.update c a b) t"
  have "map_of b ''total'' \<noteq> None"
    using assms has_totals_lookup[of t r b] by (simp add: lookup_def)
  then have "map_of (AList.update c a b) ''total'' \<noteq> None"
    by (simp add: update_conv')
  then have 1: "has_totals ?t'"
    using assms by (simp add: has_totals_update)
  have 2: "distinct_keys t \<longrightarrow> distinct_keys ?t'"
    using assms distinct_keys_bucket[of t r b] by (simp add: distinct_update distinct_keys_update)
  have 3: "lookup ?t' = (\<lambda>r' c'. if (r', c') = (r, c) then Some a else lookup t r' c')"
    using assms by (auto simp: fun_eq_iff lookup_update update_conv' lookup_def)
  show ?thesis using 1 2 3 by (simp add: step_to_def)
qed

lemma increment_ok:
  assumes "has_totals t" "lookup t r c \<noteq> None"
  shows "step_to t (increment r c place t) (touch_cell place (r, c) (lookup t))"
proof -
  from assms(2) obtain a where a: "lookup t r c = Some a" by auto
  then obtain b where b: "map_of t r = Some b" "map_of b c = Some a"
    using lookup_Some_outer by blast
  have "touch_cell place (r, c) (lookup t) =
      (\<lambda>r' c'. if (r', c') = (r, c)
          then Some (a\<lparr>count := count a + 1, avg_place := avg_place a + of_int place\<rparr>)
          else lookup t r' c')"
    using a by (auto simp: touch_cell_def touch_def fun_eq_iff)
  then show ?thesis
    using set_cell[OF assms(1) b(1)] b by (simp add: increment_def)
qed

lemma add_key_ok:
  assumes "has_totals t" "map_of t r \<noteq> None"
  shows "step_to t (add_key r place key t) (touch_cell place (r, key) (lookup t))"
proof -
  from assms(2) obtain b where b: "map_of t r = Some b" by auto
  show ?thesis
  proof (cases "map_of b key")
    case None
    then have "lookup t r key = None" using b by (simp add: lookup_def)
    then have "touch_cell place (r, key) (lookup t) =
      (\<lambda>r' c'. if (r', c') = (r, key) then Some \<lparr>count = 1, avg_place = of_int place\<rparr>
          else lookup t r' c')"
      by (auto simp: touch_cell_def touch_def fun_eq_iff)
    then show ?thesis
      using set_cell[OF assms(1) b] b None by (simp add: add_key_def create_def)
  next
    case (Some a)
    then have "lookup t r key \<noteq> None" using b by (simp add: lookup_def)
    from increment_ok[OF assms(1) this] show ?thesis
      using b Some by (simp add: add_key_def)
  qed
qed

lemma add_round_ok:
  assumes "has_totals t"
  shows "step_to t (add_round lr place t) (touch_cell place (Round lr, ''total'') (lookup t))"
proof (cases "map_of t (Round lr)")
  case None
  let ?t' = "AList.update (Round lr) [(''total'', \<lparr>count = 1, avg_place = of_int place\<rparr>)] t"
  have 1: "has_totals ?t'"
    using assms by (simp add: has_totals_update)
  have 2: "distinct_keys t \<longrightarrow> distinct_keys ?t'"
    by (simp add: distinct_keys_update)
  have "lookup t (Round lr) c = None" for c
    using None by (simp add: lookup_def)
  then have "lookup ?t' = touch_cell place (Round lr, ''total'') (lookup t)"
    by (auto simp: fun_eq_iff lookup_update touch_cell_def touch_def)
  then show ?thesis using None 1 2 by (simp add: add_round_def step_to_def)
next
  case (Some b)
  then have "lookup t (Round lr) ''total'' \<noteq> None"
    using assms has_totals_lookup by simp
  from increment_ok[OF assms this] show ?thesis
    using Some by (simp add: add_round_def)
qed

lemma touch_cell_outer:
  "f r ''total'' \<noteq> None \<Longrightarrow> touch_cell place rc f r ''total'' \<noteq> None"
  by (simp add: touch_cell_def touch_def)

lemma add_keys_ok:
  assumes "has_totals t" "lookup t (Round lr) ''total'' \<noteq> None"
  shows "step_to t (add_keys lr place keys t)
           (fold (touch_cell place)
              (concat (map (\<lambda>k. [(Round lr, k), (TotalKey, k)]) keys)) (lookup t))"
  using assms
proof (induction keys arbitrary: t)
  case Nil
  then show ?case by (simp add: step_to_def)
next
  case (Cons key keys)
  from add_key_ok[OF Cons.prems(1) lookup_outer[OF Cons.prems(2)], of place key]
  obtain t1 where t1: "add_key (Round lr) place key t = Inr t1" "has_totals t1"
    "distinct_keys t \<longrightarrow> distinct_keys t1"
    "lookup t1 = touch_cell place (Round lr, key) (lookup t)" by (rule step_toD)
  have "map_of t1 TotalKey \<noteq> None" using t1(2) by (simp add: has_totals_def)
  from add_key_ok[OF t1(2) this, of place key]
  obtain t2 where t2: "add_key TotalKey place key t1 = Inr t2" "has_totals t2"
    "distinct_keys t1 \<longrightarrow> distinct_keys t2"
    "lookup t2 = touch_cell place (TotalKey, key) (lookup t1)" by (rule step_toD)
  have "lookup t2 (Round lr) ''total'' \<noteq> None"
    using Cons.prems(2) by (simp add: t2(4) t1(4) touch_cell_outer)
  from Cons.IH[OF t2(2) this] show ?case
    using t1(3) t2(3) by (auto simp: t1(1,4) t2(1,4) step_to_def split: sum.splits)
qed

text \<open>
  One iteration on a dictionary with its totals raises no \<^verbatim>\<open>KeyError\<close>; for an accepted
  record it is a create-or-increment of each entry of \<open>touched\<close>, in that order.
\<close>

lemma reducer_step_ok:
  assumes "has_totals t"
  shows "step_to t (reducer_step t p)
          (if accepted p then fold (touch_cell (placement p)) (touched p) (lookup t)
           else lookup t)"
proof (cases "accepted p")
  case False
  then show ?thesis using assms by (simp add: reducer_step_def accepted_def step_to_def)
next
  case True
  obtain b where "map_of t TotalKey = Some b" using assms by (auto simp: has_totals_def)
  then have "lookup t TotalKey ''total'' \<noteq> None"
    using assms has_totals_lookup by simp
  from increment_ok[OF assms this, of "placement p"]
  obtain t1 where t1: "increment TotalKey ''total'' (placement p) t = Inr t1" "has_totals t1"
    "distinct_keys t \<longrightarrow> distinct_keys t1"
    "lookup t1 = touch_cell (placement p) (TotalKey, ''total'') (lookup t)" by (rule step_toD)
  from add_round_ok[OF t1(2), of "last_round p" "placement p"]
  obtain t2 where t2: "add_round (last_round p) (placement p) t1 = Inr t2" "has_totals t2"
    "distinct_keys t1 \<longrightarrow> distinct_keys t2"
    "lookup t2 = touch_cell (placement p) (Round (last_round p), ''total'') (lookup t1)"
    by (rule step_toD)
  have "lookup t2 (Round (last_round p)) ''total'' \<noteq> None"
    by (simp add: t2(4) touch_cell_def touch_def)
  from add_keys_ok[OF t2(2) this, of "placement p" "keys_list p"]
  show ?thesis using True t1(3) t2(3)
    by (auto simp: reducer_step_def accepted_def t1(1,4) t2(1,4) touched_def step_to_def
        split: sum.splits)
qed

subsection \<open>The whole loop\<close>

lemma reducer_ok:
  assumes "has_totals t"
  shows "step_to t (reducer t ps) (fold (\<lambda>(rc, pl). touch_cell pl rc) (events ps) (lookup t))"
  using assms
proof (induction ps arbitrary: t)
  case Nil
  then show ?case by (simp add: events_def step_to_def)
next
  case (Cons p ps)
  from reducer_step_ok[OF Cons.prems, of p]
  obtain t1 where t1: "reducer_step t p = Inr t1" "has_totals t1"
    "distinct_keys t \<longrightarrow> distinct_keys t1"
    "lookup t1 = (if accepted p then fold (touch_cell (placement p)) (touched p) (lookup t)
                  else lookup t)"
    by (rule step_toD)
  from Cons.IH[OF t1(2)] show ?case
    using t1(3) by (auto simp: t1(1,4) events_def fold_map comp_def step_to_def split: sum.splits)
qed

text \<open>
  After a sequence of create-or-increments an entry holds what it held before plus the
  number and the sum of the placements written to it.
\<close>

lemma fold_touch:
  "fold (\<lambda>(rc, pl). touch_cell pl rc) evs f r c =
     (if hits evs r c = [] then f r c
      else Some \<lparr>count = (case f r c of None \<Rightarrow> 0 | Some a \<Rightarrow> count a) + int (length (hits evs r c)),
                 avg_place = (case f r c of None \<Rightarrow> 0 | Some a \<Rightarrow> avg_place a)
                             + of_int (sum_list (hits evs r c))\<rparr>)"
proof (induction evs arbitrary: f)
  case Nil
  then show ?case by (simp add: hits_def)
next
  case (Cons ev evs)
  obtain rc pl where ev: "ev = (rc, pl)" by (cases ev)
  have step: "fold (\<lambda>(rc, pl). touch_cell pl rc) (ev # evs) f r c =
      fold (\<lambda>(rc, pl). touch_cell pl rc) evs (touch_cell pl rc f) r c"
    by (simp add: ev)
  have hd: "hits (ev # evs) r c = (if rc = (r, c) then pl # hits evs r c else hits evs r c)"
    by (simp add: ev hits_def)
  show ?case
    unfolding step Cons.IH hd
    by (cases "f r c") (auto simp: touch_cell_def touch_def)
qed

lemma has_totals_init: "has_totals results_init"
  by (simp add: has_totals_def results_init_def)

lemma distinct_keys_init: "distinct_keys results_init"
  by (simp add: distinct_keys_def results_init_def)

lemma lookup_init:
  "lookup results_init r c =
     (if (r, c) = (TotalKey, ''total'') then Some \<lparr>count = 0, avg_place = 0\<rparr> else None)"
  by (simp add: lookup_def results_init_def)

text \<open>
  From the seeded dictionary the loop never raises, and the dictionary it ends in reads as
  \<open>tally\<close>: the number and the sum of the placements written to each entry.
\<close>

lemma reducer_tally:
  obtains t where "reducer results_init ps = Inr t" "has_totals t" "distinct_keys t"
    "lookup t = tally ps"
proof -
  from reducer_ok[OF has_totals_init, of ps]
  obtain t where t: "reducer results_init ps = Inr t" "has_totals t"
    "distinct_keys results_init \<longrightarrow> distinct_keys t"
    "lookup t = fold (\<lambda>(rc, pl). touch_cell pl rc) (events ps) (lookup results_init)"
    by (rule step_toD)
  have "lookup t r c = tally ps r c" for r c
    unfolding t(4) fold_touch lookup_init tally_def by auto
  then have "lookup t = tally ps" by (auto simp: fun_eq_iff)
  then show ?thesis using t distinct_keys_init that by blast
qed

section \<open>The last loop\<close>

lemma finalize_bucket_eq:
  "finalize_bucket b =
     (if list_all (\<lambda>(c, a). count a \<noteq> 0) b then Inr (map (\<lambda>(c, a). (c, average a)) b)
      else Inl ZeroDivisionError)"
  by (induction b rule: finalize_bucket.induct) (auto simp: average_def)

text \<open>
  The last loop raises \<^verbatim>\<open>ZeroDivisionError\<close> when some count is zero, and otherwise
  replaces every sum by the sum divided by the count.
\<close>

lemma finalizer_eq:
  "finalizer t = (if nonzero t then Inr (averaged t) else Inl ZeroDivisionError)"
  by (induction t rule: finalizer.induct) (auto simp: finalize_bucket_eq nonzero_def averaged_def)

lemma map_of_averaged:
  "map_of (averaged t) r = map_option (map (\<lambda>(c, a). (c, average a))) (map_of t r)"
  by (simp add: averaged_def map_of_map)

lemma lookup_averaged: "lookup (averaged t) r c = map_option average (lookup t r c)"
  by (cases "map_of t r") (simp_all add: lookup_def map_of_averaged map_of_map)

lemma lookup_entry:
  assumes "distinct_keys t" "(r, b) \<in> set t" "(c, a) \<in> set b"
  shows "lookup t r c = Some a"
proof -
  have "map_of t r = Some b"
    using assms(1,2) by (simp add: distinct_keys_def)
  moreover have "distinct (map fst b)"
    using assms(1,2) by (auto simp: distinct_keys_def list_all_iff)
  ultimately show ?thesis using assms(3) by (simp add: lookup_def)
qed

lemma entry_lookup:
  assumes "lookup t r c = Some a"
  shows "\<exists>b. (r, b) \<in> set t \<and> (c, a) \<in> set b"
  using assms by (auto simp: lookup_def split: option.splits dest!: map_of_SomeD)

lemma nonzero_lookup:
  assumes "distinct_keys t"
  shows "nonzero t \<longleftrightarrow> (\<forall>r c a. lookup t r c = Some a \<longrightarrow> count a \<noteq> 0)"
proof
  assume "nonzero t"
  then show "\<forall>r c a. lookup t r c = Some a \<longrightarrow> count a \<noteq> 0"
    by (fastforce simp: nonzero_def list_all_iff dest!: entry_lookup)
next
  assume "\<forall>r c a. lookup t r c = Some a \<longrightarrow> count a \<noteq> 0"
  then show "nonzero t"
    using lookup_entry[OF assms] by (fastforce simp: nonzero_def list_all_iff)
qed

lemma events_Cons:
  "events (p # ps) =
     (if accepted p then map (\<lambda>rc. (rc, placement p)) (touched p) else []) @ events ps"
  by (simp add: events_def)

lemma events_append: "events (ps @ qs) = events ps @ events qs"
  by (simp add: events_def)

lemma hits_append: "hits (xs @ ys) r c = hits xs r c @ hits ys r c"
  by (simp add: hits_def)

lemma hits_total_empty:
  "hits (events ps) TotalKey ''total'' = [] \<longleftrightarrow> filter accepted ps = []"
proof (induction ps)
  case Nil
  show ?case by (simp add: events_def hits_def)
next
  case (Cons p ps)
  have "hits (map (\<lambda>rc. (rc, placement p)) (touched p)) TotalKey ''total'' \<noteq> []"
    by (simp add: hits_def touched_def)
  then show ?case using Cons by (simp add: events_Cons hits_append) (simp add: hits_def)
qed

lemma tally_count_zero:
  assumes "tally ps r c = Some a"
  shows "count a = 0 \<longleftrightarrow> r = TotalKey \<and> c = ''total'' \<and> filter accepted ps = []"
  using assms hits_total_empty[of ps]
  by (auto simp: tally_def split: if_splits)

lemma tally_total: "tally ps TotalKey ''total'' \<noteq> None"
  by (simp add: tally_def)

text \<open>
  The only entry that can have count zero after the loop is the seeded one, when no
  record was accepted.
\<close>

lemma analysis_eq:
  obtains t where "reducer results_init ps = Inr t" "has_totals t" "distinct_keys t"
    "lookup t = tally ps"
    "analysis ps = (if filter accepted ps = [] then Inl ZeroDivisionError else Inr (averaged t))"
proof -
  obtain t where t: "reducer results_init ps = Inr t" "has_totals t" "distinct_keys t"
    "lookup t = tally ps" by (rule reducer_tally)
  have "nonzero t \<longleftrightarrow> filter accepted ps \<noteq> []"
  proof
    assume "nonzero t"
    moreover obtain a where a: "tally ps TotalKey ''total'' = Some a"
      using tally_total[of ps] by auto
    ultimately have "count a \<noteq> 0"
      using nonzero_lookup[OF t(3)] t(4) by auto
    then show "filter accepted ps \<noteq> []"
      using tally_count_zero[OF a] by simp
  next
    assume "filter accepted ps \<noteq> []"
    then show "nonzero t"
      using nonzero_lookup[OF t(3)] t(4) tally_count_zero by auto
  qed
  then have "analysis ps = (if filter accepted ps = [] then Inl ZeroDivisionError else Inr (averaged t))"
    by (simp add: analysis_def t(1) finalizer_eq)
  then show ?thesis using t that by blast
qed

section \<open>Merging partial tables\<close>

lemma map_of_merge_bucket:
  assumes "distinct (map fst b2)"
  shows "map_of (merge_bucket b b2) c = combine (map_of b c) (map_of b2 c)"
  using assms
proof (induction b2 arbitrary: b)
  case Nil
  show ?case by (simp add: combine_def)
next
  case (Cons e b2)
  obtain c' a where e: "e = (c', a)" by (cases e)
  have "c' \<notin> fst ` set b2" using Cons.prems by (simp add: e)
  then have none: "map_of b2 c' = None" by (simp add: map_of_eq_None_iff)
  have "distinct (map fst b2)" using Cons.prems by simp
  from Cons.IH[OF this] show ?case
    by (auto simp: e update_conv' combine_def none split: option.splits)
qed

lemma distinct_merge_bucket:
  "distinct (map fst b) \<Longrightarrow> distinct (map fst (merge_bucket b b2))"
  by (induction b b2 rule: merge_bucket.induct) (simp_all add: distinct_update)

lemma map_of_merge:
  assumes "distinct (map fst t2)"
  shows "map_of (merge t t2) r =
     (case map_of t2 r of
        None \<Rightarrow> map_of t r
      | Some b2 \<Rightarrow> Some (case map_of t r of None \<Rightarrow> b2 | Some b \<Rightarrow> merge_bucket b b2))"
  using assms
proof (induction t2 arbitrary: t)
  case Nil
  show ?case by simp
next
  case (Cons e t2)
  obtain r' b where e: "e = (r', b)" by (cases e)
  have "r' \<notin> fst ` set t2" using Cons.prems by (simp add: e)
  then have none: "map_of t2 r' = None" by (simp add: map_of_eq_None_iff)
  have "distinct (map fst t2)" using Cons.prems by simp
  from Cons.IH[OF this] show ?case
    by (auto simp: e update_conv' none split: option.splits)
qed

lemma distinct_keys_Cons:
  "distinct_keys ((r, b) # t) \<Longrightarrow> distinct (map fst b) \<and> distinct_keys t"
  by (simp add: distinct_keys_def)

lemma distinct_keys_merge:
  assumes "distinct_keys t" "distinct_keys t2"
  shows "distinct_keys (merge t t2)"
  using assms
proof (induction t t2 rule: merge.induct)
  case (1 t)
  then show ?case by simp
next
  case (2 t r b t2)
  have b: "distinct (map fst b)" "distinct_keys t2"
    using distinct_keys_Cons[OF "2.prems"(2)] by auto
  have "distinct (map fst (case map_of t r of None \<Rightarrow> b | Some b' \<Rightarrow> merge_bucket b' b))"
    using b(1) "2.prems"(1)
    by (auto split: option.splits intro!: distinct_merge_bucket dest: distinct_keys_bucket)
  from "2.IH"[OF distinct_keys_update[OF "2.prems"(1) this] b(2)]
  show ?case by simp
qed

lemma lookup_merge:
  assumes "distinct_keys t2"
  shows "lookup (merge t t2) r c = combine (lookup t r c) (lookup t2 r c)"
proof -
  have d: "distinct (map fst t2)" using assms by (simp add: distinct_keys_def)
  show ?thesis
  proof (cases "map_of t2 r")
    case None
    then show ?thesis by (simp add: lookup_def map_of_merge[OF d] combine_def)
  next
    case (Some b2)
    then have "distinct (map fst b2)" using assms distinct_keys_bucket by blast
    then show ?thesis using Some
      by (auto simp: lookup_def map_of_merge[OF d] map_of_merge_bucket combine_def
          split: option.splits)
  qed
qed

lemma dict_of_alt:
  "dict_of t r = (if map_of t r = None then None else Some (lookup t r))"
  by (auto simp: dict_of_def lookup_def fun_eq_iff)

lemma lookup_dict_of:
  "lookup t r c = (case dict_of t r of None \<Rightarrow> None | Some f \<Rightarrow> f c)"
  by (simp add: dict_of_def lookup_def split: option.splits)

lemma dict_of_averaged:
  "dict_of (averaged t) r = map_option (\<lambda>f. map_option average \<circ> f) (dict_of t r)"
  by (cases "map_of t r") (simp_all add: dict_of_def map_of_averaged map_of_map)

text \<open>
  The outcome of the last loop depends on the dictionary only, not on the order of its
  keys.
\<close>

lemma outcome_cong:
  assumes "distinct_keys t" "distinct_keys t'" "dict_of t = dict_of t'"
  shows "outcome (finalizer t) = outcome (finalizer t')"
proof -
  have "lookup t = lookup t'"
    using assms(3) by (simp add: fun_eq_iff lookup_dict_of)
  then have "nonzero t = nonzero t'"
    using assms(1,2) by (simp add: nonzero_lookup)
  moreover have "dict_of (averaged t) = dict_of (averaged t')"
    using assms(3) by (simp add: fun_eq_iff dict_of_averaged)
  ultimately show ?thesis by (simp add: outcome_def finalizer_eq)
qed

lemma tally_append: "tally (A @ B) r c = combine (tally A r c) (tally B r c)"
  by (auto simp: tally_def events_append hits_append combine_def add_aggregates_def)

lemma combine_commute: "combine x y = combine y x"
  by (auto simp: combine_def add_aggregates_def split: option.splits)

lemma combine_None: "combine x y = None \<longleftrightarrow> x = None \<and> y = None"
  by (auto simp: combine_def split: option.splits)

lemma reducer_append:
  "reducer t (A @ B) = (case reducer t A of Inl e \<Rightarrow> Inl e | Inr t' \<Rightarrow> reducer t' B)"
  by (induction A arbitrary: t) (auto split: sum.splits)

lemma has_totals_outer:
  assumes "has_totals t"
  shows "map_of t r = None \<longleftrightarrow> lookup t r ''total'' = None"
proof (cases "map_of t r")
  case None
  then show ?thesis by (simp add: lookup_def)
next
  case (Some b)
  then show ?thesis using has_totals_lookup[OF assms Some] by simp
qed

section \<open>The entry \<^verbatim>\<open>'total'\<close> of every bucket\<close>

text \<open>
  C10. The seeded dictionary has the outer key \<^verbatim>\<open>'total'\<close>, and each of its buckets has
  the inner key \<^verbatim>\<open>'total'\<close>. One iteration of the loop, on any record, keeps that: from a
  dictionary with the property it raises no \<^verbatim>\<open>KeyError\<close> and ends in a dictionary with the
  property.
\<close>

theorem total_entry_invariant:
  "has_totals results_init \<and>
   (\<forall>t p. has_totals t \<longrightarrow> (\<exists>t'. reducer_step t p = Inr t' \<and> has_totals t'))"
proof -
  have "\<exists>t'. reducer_step t p = Inr t' \<and> has_totals t'" if "has_totals t" for t p
    using reducer_step_ok[OF that, of p] by (auto elim: step_toD)
  then show ?thesis using has_totals_init by blast
qed

theorem total_entry_invariant_witness:
  "has_totals results_init \<and>
   (\<exists>t'. reducer_step results_init (hd example_query) = Inr t' \<and> has_totals t'
      \<and> lookup t' (Round 5) ''total'' = Some \<lparr>count = 1, avg_place = 2\<rparr>)"
proof -
  have 0: "has_totals results_init" using total_entry_invariant by blast
  then obtain t' where t': "reducer_step results_init (hd example_query) = Inr t'" "has_totals t'"
    using total_entry_invariant by blast
  moreover have "lookup t' (Round 5) ''total'' = Some \<lparr>count = 1, avg_place = 2\<rparr>"
    using t'(1) by (auto simp: example_query_def script_defs)
  ultimately show ?thesis using 0 by blast
qed

section \<open>The duplicate check\<close>

text \<open>
  The pipeline sets \<^verbatim>\<open>num_units\<close> to the number of units, so a record of the query with
  a repeated identifier fails the check.
\<close>

lemma duplicate_guard:
  assumes "\<not> distinct (units p)" "num_units p = int (length (units p))"
  shows "int (card (set (units p))) \<noteq> num_units p"
  using assms card_distinct[of "units p"] by auto

lemma pipeline_num_units:
  "p \<in> set (pipeline ms) \<Longrightarrow> num_units p = int (length (units p))"
  by (auto simp: pipeline_def)

text \<open>
  C5. A record whose number of distinct unit identifiers differs from its \<^verbatim>\<open>num_units\<close>
  leaves the dictionary as it is: the iteration returns the same dictionary, and the loop
  over a query gives the same result with the record as without it.
\<close>

theorem duplicate_units_discarded:
  assumes "int (card (set (units p))) \<noteq> num_units p"
  shows "reducer_step t p = Inr t \<and> reducer t (ps @ p # qs) = reducer t (ps @ qs)"
proof -
  have "reducer_step t' p = Inr t'" for t'
    using assms by (simp add: reducer_step_def)
  then show ?thesis
    by (simp add: reducer_append split: sum.splits)
qed

theorem duplicate_units_discarded_witness:
  "int (card (set (units duplicate_player))) \<noteq> num_units duplicate_player
   \<and> reducer_step results_init duplicate_player = Inr results_init
   \<and> reducer results_init (example_query @ duplicate_player # single_query) =
       reducer results_init (example_query @ single_query)"
proof -
  have h: "int (card (set (units duplicate_player))) \<noteq> num_units duplicate_player"
    by (simp add: duplicate_player_def)
  show ?thesis using h duplicate_units_discarded[OF h] by simp
qed

text \<open>
  C3. The check compares the identifiers as they are stored, and the keys are the names
  after the last underscore. The record \<open>same_name_player\<close> has six different
  identifiers, so it passes the check, but two of them have the name Ashe: its key list
  has a duplicate, and the one record adds 2 to the count of Ashe, and twice its
  placement to the sum, in the bucket of its round and in the bucket \<^verbatim>\<open>'total'\<close>.
\<close>

theorem same_name_counted_twice:
  "int (card (set (units same_name_player))) = num_units same_name_player
   \<and> \<not> distinct (keys_list same_name_player)
   \<and> (\<exists>t. reducer_step results_init same_name_player = Inr t
        \<and> lookup t (Round 5) ''Ashe'' = Some \<lparr>count = 2, avg_place = 4\<rparr>
        \<and> lookup t TotalKey ''Ashe'' = Some \<lparr>count = 2, avg_place = 4\<rparr>
        \<and> lookup t (Round 5) ''total'' = Some \<lparr>count = 1, avg_place = 2\<rparr>)"
  by (simp add: same_name_player_def script_defs)

section \<open>Counts\<close>

text \<open>
  The script fails exactly on the queries with no accepted record, and with
  \<^verbatim>\<open>ZeroDivisionError\<close>.
\<close>

lemma analysis_fails_iff:
  "analysis ps = Inl e \<longleftrightarrow> e = ZeroDivisionError \<and> filter accepted ps = []"
  by (rule analysis_eq[of ps]) auto

text \<open>
  C4, as the script has it. When at least one record of the query passes the duplicate
  check, the loop ends in a dictionary in which every aggregate has count at least 1, and
  the last loop finishes on it: no division is by zero.
\<close>

theorem counts_at_least_one:
  assumes "\<exists>p\<in>set ps. int (card (set (units p))) = num_units p"
  shows "\<exists>t. reducer results_init ps = Inr t
           \<and> list_all (\<lambda>(r, b). list_all (\<lambda>(c, a). 1 \<le> count a) b) t
           \<and> (\<exists>t'. finalizer t = Inr t')"
proof -
  from assms have ne: "filter accepted ps \<noteq> []"
    by (auto simp: filter_empty_conv accepted_def)
  obtain t where t: "reducer results_init ps = Inr t" "lookup t = tally ps"
    "analysis ps = (if filter accepted ps = [] then Inl ZeroDivisionError else Inr (averaged t))"
    by (rule analysis_eq)
  have "1 \<le> count a" if "(r, b) \<in> set t" "(c, a) \<in> set b" for r b c a
  proof -
    obtain t' where t': "reducer results_init ps = Inr t'" "distinct_keys t'"
      by (rule reducer_tally)
    then have "lookup t r c = Some a" using that t(1) lookup_entry by auto
    then have a: "tally ps r c = Some a" by (simp add: t(2))
    then have "0 \<le> count a" by (auto simp: tally_def split: if_splits)
    then show ?thesis using tally_count_zero[OF a] ne by auto
  qed
  then have "list_all (\<lambda>(r, b). list_all (\<lambda>(c, a). 1 \<le> count a) b) t"
    by (auto simp: list_all_iff)
  moreover have "finalizer t = Inr (averaged t)"
    using t(1,3) ne by (simp add: analysis_def)
  ultimately show ?thesis using t(1) by blast
qed

theorem counts_at_least_one_witness:
  "(\<exists>p. p \<in> set example_query \<and> int (card (set (units p))) = num_units p)
   \<and> (\<exists>t. reducer results_init example_query = Inr t
           \<and> list_all (\<lambda>(r, b). list_all (\<lambda>(c, a). 1 \<le> count a) b) t
           \<and> (\<exists>t'. finalizer t = Inr t'))"
proof -
  have h: "\<exists>p\<in>set example_query. int (card (set (units p))) = num_units p"
    by (simp add: example_query_def)
  from counts_at_least_one[OF h] h show ?thesis by blast
qed

text \<open>
  On the empty query the loop leaves the seeded dictionary, whose only aggregate has
  count 0, and the last loop divides by it: the script ends in \<^verbatim>\<open>ZeroDivisionError\<close>.
\<close>

theorem empty_query_divides_by_zero:
  "reducer results_init [] = Inr results_init
   \<and> lookup results_init TotalKey ''total'' = Some \<lparr>count = 0, avg_place = 0\<rparr>
   \<and> analysis [] = Inl ZeroDivisionError"
  by (simp add: script_defs)

lemma keys_count:
  assumes "distinct ks"
  shows "length (filter (\<lambda>rc. rc = (r, c)) (concat (map (\<lambda>k. [(Round lr, k), (TotalKey, k)]) ks)))
         = (if c \<in> set ks \<and> (r = TotalKey \<or> r = Round lr) then 1 else 0)"
  using assms by (induction ks) auto

lemma touched_count:
  assumes "distinct (keys_list p)" "''total'' \<notin> set (keys_list p)"
  shows "length (filter (\<lambda>rc. rc = (r, c)) (touched p)) =
         (if (case r of TotalKey \<Rightarrow> True | Round n \<Rightarrow> last_round p = n)
             \<and> (c = ''total'' \<or> c \<in> set (keys_list p)) then 1 else 0)"
proof -
  let ?P = "\<lambda>rc. rc = (r, c)"
  have "length (filter ?P (touched p)) =
      (if (r, c) = (TotalKey, ''total'') then 1 else 0)
      + (if (r, c) = (Round (last_round p), ''total'') then 1 else 0)
      + length (filter ?P (concat (map (\<lambda>k. [(Round (last_round p), k), (TotalKey, k)])
          (keys_list p))))"
    by (simp add: touched_def)
  also have "\<dots> = (if (case r of TotalKey \<Rightarrow> True | Round n \<Rightarrow> last_round p = n)
             \<and> (c = ''total'' \<or> c \<in> set (keys_list p)) then 1 else 0)"
    unfolding keys_count[OF assms(1)] using assms(2)
    by (cases r) auto
  finally show ?thesis .
qed

lemma hits_map:
  "hits (map (\<lambda>rc. (rc, pl)) xs) r c = map (\<lambda>rc. pl) (filter (\<lambda>rc. rc = (r, c)) xs)"
  by (induction xs) (auto simp: hits_def)

lemma hits_count:
  assumes "\<forall>p\<in>set ps. accepted p \<longrightarrow> distinct (keys_list p) \<and> ''total'' \<notin> set (keys_list p)"
  shows "length (hits (events ps) r c) =
         length (filter (\<lambda>p. accepted p \<and>
                   (case r of TotalKey \<Rightarrow> True | Round n \<Rightarrow> last_round p = n) \<and>
                   (c = ''total'' \<or> c \<in> set (keys_list p))) ps)"
  using assms
proof (induction ps)
  case Nil
  show ?case by (simp add: events_def hits_def)
next
  case (Cons p ps)
  have "length (hits (events (p # ps)) r c) =
      (if accepted p then length (filter (\<lambda>rc. rc = (r, c)) (touched p)) else 0)
      + length (hits (events ps) r c)"
    by (simp add: events_Cons hits_append hits_map) (simp add: hits_def)
  also have "(if accepted p then length (filter (\<lambda>rc. rc = (r, c)) (touched p)) else 0) =
      (if accepted p \<and> (case r of TotalKey \<Rightarrow> True | Round n \<Rightarrow> last_round p = n)
          \<and> (c = ''total'' \<or> c \<in> set (keys_list p)) then 1 else 0)"
    using Cons.prems by (simp add: touched_count)
  finally show ?case using Cons by simp
qed

text \<open>
  C2, as the script has it. Take a query in which the keys of every accepted record are
  pairwise different and none of them is the word \<^verbatim>\<open>total\<close>. If the script finishes, then
  for every pair of keys \<open>r\<close>, \<open>c\<close> present in the written dictionary the count is the
  number of accepted records whose last round is \<open>r\<close> (any round when \<open>r\<close> is
  \<^verbatim>\<open>'total'\<close>) and that have a unit named \<open>c\<close> (any units when \<open>c\<close> is \<^verbatim>\<open>'total'\<close>).
\<close>

theorem count_conservation:
  assumes "\<forall>p\<in>set ps. int (card (set (units p))) = num_units p \<longrightarrow>
             distinct (keys_list p) \<and> ''total'' \<notin> set (keys_list p)"
    and "analysis ps = Inr t" and "lookup t r c = Some a"
  shows "count a =
         int (length (filter (\<lambda>p. int (card (set (units p))) = num_units p \<and>
                (case r of TotalKey \<Rightarrow> True | Round n \<Rightarrow> last_round p = n) \<and>
                (c = ''total'' \<or> c \<in> set (keys_list p))) ps))"
proof -
  obtain t0 where t0: "lookup t0 = tally ps"
    "analysis ps = (if filter accepted ps = [] then Inl ZeroDivisionError else Inr (averaged t0))"
    by (rule analysis_eq)
  with assms(2) have t: "t = averaged t0"
    by (auto split: if_splits)
  from assms(3) obtain a0 where a0: "tally ps r c = Some a0" "a = average a0"
    by (auto simp: t lookup_averaged t0(1))
  have "count a = int (length (hits (events ps) r c))"
    using a0 by (auto simp: tally_def average_def split: if_splits)
  also have "\<dots> = int (length (filter (\<lambda>p. accepted p \<and>
                   (case r of TotalKey \<Rightarrow> True | Round n \<Rightarrow> last_round p = n) \<and>
                   (c = ''total'' \<or> c \<in> set (keys_list p))) ps))"
    using hits_count[of ps r c] assms(1) by (simp add: accepted_def)
  finally show ?thesis by (simp add: accepted_def)
qed

theorem count_conservation_witness:
  "list_all (\<lambda>p. distinct (keys_list p) \<and> ''total'' \<notin> set (keys_list p)) example_query
   \<and> (\<exists>t a. analysis example_query = Inr t \<and> lookup t (Round 5) ''Jinx'' = Some a \<and> count a = 1)"
proof -
  have h: "\<forall>p\<in>set example_query. int (card (set (units p))) = num_units p \<longrightarrow>
             distinct (keys_list p) \<and> ''total'' \<notin> set (keys_list p)"
    by (simp add: example_query_def keys_list_def unit_name_def)
  obtain t a where ta: "analysis example_query = Inr t" "lookup t (Round 5) ''Jinx'' = Some a"
    by (simp add: example_query_def script_defs)
  have "count a = 1"
    unfolding count_conservation[OF h ta]
    by (simp add: example_query_def keys_list_def unit_name_def)
  then show ?thesis using ta
    by (auto simp: example_query_def keys_list_def unit_name_def)
qed

text \<open>
  Without the condition on the keys the count can differ. The one record of
  \<open>total_named_query\<close> is accepted and has last round 5, and its unit is named
  \<^verbatim>\<open>total\<close>: the entry \<^verbatim>\<open>[5]['total']\<close> is written once for the round and once for the
  unit, and its count is 2.
\<close>

theorem total_named_unit_counted_twice:
  "analysis total_named_query =
     Inr [(TotalKey, [(''total'', \<lparr>count = 2, avg_place = 3\<rparr>)]),
          (Round 5, [(''total'', \<lparr>count = 2, avg_place = 3\<rparr>)])]
   \<and> lookup [(TotalKey, [(''total'', \<lparr>count = 2, avg_place = 3\<rparr>)]),
             (Round 5, [(''total'', \<lparr>count = 2, avg_place = 3\<rparr>)])] (Round 5) ''total''
       = Some \<lparr>count = 2, avg_place = 3\<rparr>
   \<and> length (filter (\<lambda>p. int (card (set (units p))) = num_units p \<and> last_round p = 5)
        total_named_query) = 1"
  by (simp add: total_named_query_def script_defs)

section \<open>The order of the records\<close>

text \<open>
  C6. For two batches \<open>A\<close> and \<open>B\<close>, the loop over \<open>A\<close> and then over \<open>B\<close>, the loop
  over \<open>B\<close> and then over \<open>A\<close>, and the merge of the two dictionaries of \<open>A\<close> alone and
  \<open>B\<close> alone all end without \<^verbatim>\<open>KeyError\<close>, and the last loop has the same outcome on the
  three: the same exception, or equal dictionaries (the same keys with the same counts and
  averages; the order in which the keys were inserted may differ).
\<close>

theorem fold_order_irrelevant:
  "\<exists>ta tb tab tba.
      reducer results_init A = Inr ta \<and> reducer results_init B = Inr tb
    \<and> reducer ta B = Inr tab \<and> reducer tb A = Inr tba
    \<and> outcome (finalizer tab) = outcome (finalizer tba)
    \<and> outcome (finalizer (merge ta tb)) = outcome (finalizer tab)"
proof -
  obtain ta where ta: "reducer results_init A = Inr ta" "has_totals ta" "distinct_keys ta"
    "lookup ta = tally A" by (rule reducer_tally)
  obtain tb where tb: "reducer results_init B = Inr tb" "has_totals tb" "distinct_keys tb"
    "lookup tb = tally B" by (rule reducer_tally)
  obtain tab where tab: "reducer results_init (A @ B) = Inr tab" "has_totals tab"
    "distinct_keys tab" "lookup tab = tally (A @ B)" by (rule reducer_tally)
  obtain tba where tba: "reducer results_init (B @ A) = Inr tba" "has_totals tba"
    "distinct_keys tba" "lookup tba = tally (B @ A)" by (rule reducer_tally)
  have 1: "reducer ta B = Inr tab" using tab(1) by (simp add: reducer_append ta(1))
  have 2: "reducer tb A = Inr tba" using tba(1) by (simp add: reducer_append tb(1))
  have l: "lookup tab = lookup tba"
    by (simp add: fun_eq_iff tab(4) tba(4) tally_append combine_commute)
  then have "dict_of tab = dict_of tba"
    using has_totals_outer[OF tab(2)] has_totals_outer[OF tba(2)]
    by (simp add: fun_eq_iff dict_of_alt)
  then have 3: "outcome (finalizer tab) = outcome (finalizer tba)"
    using outcome_cong tab(3) tba(3) by blast
  let ?m = "merge ta tb"
  have lm: "lookup ?m = lookup tab"
    by (simp add: fun_eq_iff lookup_merge[OF tb(3)] ta(4) tb(4) tab(4) tally_append)
  have "map_of ?m r = None \<longleftrightarrow> map_of tab r = None" for r
  proof -
    have "map_of ?m r = None \<longleftrightarrow> map_of ta r = None \<and> map_of tb r = None"
      using tb(3) by (auto simp: map_of_merge distinct_keys_def split: option.splits)
    also have "\<dots> \<longleftrightarrow> map_of tab r = None"
      by (simp add: has_totals_outer[OF ta(2)] has_totals_outer[OF tb(2)]
          has_totals_outer[OF tab(2)] ta(4) tb(4) tab(4) tally_append combine_None)
    finally show ?thesis .
  qed
  then have "dict_of ?m = dict_of tab"
    using lm by (simp add: fun_eq_iff dict_of_alt)
  then have 4: "outcome (finalizer ?m) = outcome (finalizer tab)"
    using outcome_cong distinct_keys_merge[OF ta(3) tb(3)] tab(3) by blast
  show ?thesis using ta(1) tb(1) 1 2 3 4 by blast
qed

section \<open>The last loop run twice\<close>

lemma nonzero_averaged: "nonzero (averaged t) = nonzero t"
  by (simp add: nonzero_def averaged_def list_all_iff average_def split_beta)

text \<open>
  C7, as the script has it. When the last loop has finished on a dictionary, running it
  once more finishes too, keeps the keys, and divides every average by the count of its
  entry again: by 2 only where the count is 2.
\<close>

theorem second_pass_divides_by_count:
  assumes "finalizer t = Inr t1"
  shows "\<exists>t2. finalizer t1 = Inr t2 \<and>
           (\<forall>r c. lookup t1 r c = None \<longrightarrow> lookup t2 r c = None) \<and>
           (\<forall>r c a1. lookup t1 r c = Some a1 \<longrightarrow>
              lookup t2 r c = Some (a1\<lparr>avg_place := avg_place a1 / of_int (count a1)\<rparr>))"
proof -
  from assms have t1: "nonzero t" "t1 = averaged t"
    by (auto simp: finalizer_eq split: if_splits)
  then have "finalizer t1 = Inr (averaged t1)"
    by (simp add: finalizer_eq nonzero_averaged)
  then show ?thesis
    by (auto simp: lookup_averaged average_def)
qed

theorem second_pass_divides_by_count_witness:
  "\<exists>t1 t2. analysis example_query = Inr t1 \<and> finalizer t1 = Inr t2
     \<and> lookup t1 (Round 5) ''Ashe'' = Some \<lparr>count = 2, avg_place = 3\<rparr>
     \<and> lookup t2 (Round 5) ''Ashe'' = Some \<lparr>count = 2, avg_place = 3 / 2\<rparr>"
proof -
  obtain t1 where t1: "analysis example_query = Inr t1"
    "lookup t1 (Round 5) ''Ashe'' = Some \<lparr>count = 2, avg_place = 3\<rparr>"
    by (simp add: example_query_def script_defs)
  then have "finalizer (case reducer results_init example_query of Inr t \<Rightarrow> t) = Inr t1"
    by (simp add: analysis_def split: sum.splits)
  from second_pass_divides_by_count[OF this] t1 show ?thesis
    by fastforce
qed

text \<open>
  On the query with the one record of placement 4 every count is 1: the second run of
  the last loop leaves the averages at 4, which is not half of 4.
\<close>

theorem second_pass_not_half:
  "analysis single_query =
     Inr [(TotalKey, [(''total'', \<lparr>count = 1, avg_place = 4\<rparr>),
                      (''Ashe'', \<lparr>count = 1, avg_place = 4\<rparr>)]),
          (Round 5, [(''total'', \<lparr>count = 1, avg_place = 4\<rparr>),
                     (''Ashe'', \<lparr>count = 1, avg_place = 4\<rparr>)])]
   \<and> finalizer
        [(TotalKey, [(''total'', \<lparr>count = 1, avg_place = 4\<rparr>),
                     (''Ashe'', \<lparr>count = 1, avg_place = 4\<rparr>)]),
         (Round 5, [(''total'', \<lparr>count = 1, avg_place = 4\<rparr>),
                    (''Ashe'', \<lparr>count = 1, avg_place = 4\<rparr>)])] =
     Inr [(TotalKey, [(''total'', \<lparr>count = 1, avg_place = 4\<rparr>),
                      (''Ashe'', \<lparr>count = 1, avg_place = 4\<rparr>)]),
          (Round 5, [(''total'', \<lparr>count = 1, avg_place = 4\<rparr>),
                     (''Ashe'', \<lparr>count = 1, avg_place = 4\<rparr>)])]
   \<and> (4 :: rat) \<noteq> 4 / 2"
  by (simp add: single_query_def script_defs)

section \<open>The excluded rounds\<close>

lemma hits_nonempty:
  assumes "x \<in> set (hits (events ps) r c)"
  shows "\<exists>p\<in>set ps. accepted p \<and> (r, c) \<in> set (touched p) \<and> x = placement p"
  using assms by (auto simp: events_def hits_def)

lemma touched_round: "(Round n, c) \<in> set (touched p) \<Longrightarrow> last_round p = n"
  by (auto simp: touched_def)

lemma reducer_round_keys:
  assumes "reducer results_init ps = Inr t" "map_of t (Round n) \<noteq> None"
  shows "\<exists>p\<in>set ps. accepted p \<and> last_round p = n"
proof -
  obtain t' where t': "reducer results_init ps = Inr t'" "has_totals t'" "lookup t' = tally ps"
    by (rule reducer_tally)
  then have "tally ps (Round n) ''total'' \<noteq> None"
    using assms has_totals_lookup[of t "Round n"] by auto
  then have "hits (events ps) (Round n) ''total'' \<noteq> []"
    by (auto simp: tally_def split: if_splits)
  then obtain x where "x \<in> set (hits (events ps) (Round n) ''total'')"
    by (cases "hits (events ps) (Round n) ''total''") auto
  from hits_nonempty[OF this] show ?thesis
    using touched_round by blast
qed

lemma pipeline_last_round:
  "p \<in> set (pipeline ms) \<Longrightarrow> last_round p \<notin> set excluded_rounds"
  by (auto simp: pipeline_def)

lemma pipeline_without_round:
  assumes "r \<in> set excluded_rounds"
  shows "pipeline (map (without_round r) ms) = pipeline ms"
proof -
  let ?R = "\<lambda>q. participant_last_round q \<noteq> r"
  let ?Q = "\<lambda>m. queue_id m = 1100"
  have 1: "filter ?Q (map (without_round r) ms) = map (without_round r) (filter ?Q ms)"
    by (induction ms) (auto simp: without_round_def)
  have 2: "concat (map participants (map (without_round r) xs)) =
      filter ?R (concat (map participants xs))" for xs
    by (induction xs) (auto simp: without_round_def)
  have 3: "filter (\<lambda>(p, n). participant_last_round p \<notin> set excluded_rounds)
        (filter (\<lambda>(p, n :: int). 6 \<le> n)
          (map (\<lambda>p. (p, int (length (participant_units p)))) (filter ?R ys))) =
      filter (\<lambda>(p, n). participant_last_round p \<notin> set excluded_rounds)
        (filter (\<lambda>(p, n :: int). 6 \<le> n)
          (map (\<lambda>p. (p, int (length (participant_units p)))) ys))" for ys
    using assms by (induction ys) auto
  show ?thesis
    unfolding pipeline_def 1 2 3 ..
qed

text \<open>
  C8. For a round \<open>r\<close> of the list in the \<^verbatim>\<open>$nin\<close> stage (15, for one): no document of the
  query has last round \<open>r\<close>; the dictionary has no outer key \<open>r\<close>, after the loop and
  in what is written; and the query is the same as on the stored matches without the
  participants that ended in round \<open>r\<close>, so that they add to no aggregate.
\<close>

theorem excluded_rounds_never_keys:
  assumes "r \<in> set excluded_rounds"
  shows "(\<forall>p\<in>set (pipeline ms). last_round p \<noteq> r)
       \<and> (\<forall>t. reducer results_init (pipeline ms) = Inr t \<longrightarrow> map_of t (Round r) = None)
       \<and> (\<forall>t. analysis (pipeline ms) = Inr t \<longrightarrow> map_of t (Round r) = None)
       \<and> pipeline (map (without_round r) ms) = pipeline ms"
proof -
  have 1: "\<forall>p\<in>set (pipeline ms). last_round p \<noteq> r"
    using assms pipeline_last_round by blast
  have 2: "map_of t (Round r) = None" if "reducer results_init (pipeline ms) = Inr t" for t
    using reducer_round_keys[OF that, of r] 1 by blast
  have 3: "map_of t (Round r) = None" if "analysis (pipeline ms) = Inr t" for t
  proof -
    from that obtain t0 where "reducer results_init (pipeline ms) = Inr t0" "t = averaged t0"
      by (auto simp: analysis_def finalizer_eq split: sum.splits if_splits)
    then show ?thesis using 2 by (simp add: map_of_averaged)
  qed
  show ?thesis using 1 2 3 pipeline_without_round[OF assms] by blast
qed

theorem excluded_rounds_never_keys_witness:
  "15 \<in> set excluded_rounds
   \<and> map participant_last_round (concat (map participants example_matches)) = [15, 20]
   \<and> map last_round (pipeline example_matches) = [20]
   \<and> (\<exists>t. analysis (pipeline example_matches) = Inr t
         \<and> map_of t (Round 15) = None \<and> map_of t (Round 20) \<noteq> None)"
proof -
  have h: "15 \<in> set excluded_rounds" by (simp add: excluded_rounds_def)
  have p: "pipeline example_matches =
      [\<lparr>num_units = 6,
        units = [''TFT4_Ashe'', ''TFT4_Jinx'', ''TFT4_Garen'', ''TFT4_Lux'', ''TFT4_Zed'',
                 ''TFT4_Yone''],
        last_round = 20, placement = 3\<rparr>]"
    by (simp add: pipeline_def example_matches_def six_units_def excluded_rounds_def)
  obtain t where t: "analysis (pipeline example_matches) = Inr t" "map_of t (Round 20) \<noteq> None"
    unfolding p by (simp add: script_defs)
  from excluded_rounds_never_keys[OF h, of example_matches] t(1)
  have "map_of t (Round 15) = None" by blast
  then show ?thesis using h t by (simp add: p) (simp add: example_matches_def)
qed

section \<open>The range of the averages\<close>

lemma sum_list_bounds:
  fixes hs :: "int list"
  assumes "\<forall>x\<in>set hs. lo \<le> x \<and> x \<le> hi"
  shows "lo * int (length hs) \<le> sum_list hs \<and> sum_list hs \<le> hi * int (length hs)"
  using assms by (induction hs) (auto simp: algebra_simps)

text \<open>
  C9. When every placement of the query is between 1 and 8 and the script finishes (so
  the query is not empty), every average of the written dictionary is between 1 and 8,
  the division being the one of the rationals.
\<close>

theorem average_bounds:
  assumes "\<forall>p\<in>set ps. 1 \<le> placement p \<and> placement p \<le> 8"
    and "analysis ps = Inr t" and "lookup t r c = Some a"
  shows "ps \<noteq> [] \<and> 1 \<le> avg_place a \<and> avg_place a \<le> 8"
proof -
  obtain t0 where t0: "lookup t0 = tally ps"
    "analysis ps = (if filter accepted ps = [] then Inl ZeroDivisionError else Inr (averaged t0))"
    by (rule analysis_eq)
  with assms(2) have ne: "filter accepted ps \<noteq> []" and t: "t = averaged t0"
    by (auto split: if_splits)
  from assms(3) obtain a0 where a0: "tally ps r c = Some a0" "a = average a0"
    by (auto simp: t lookup_averaged t0(1))
  let ?hs = "hits (events ps) r c"
  have a0_eq: "a0 = \<lparr>count = int (length ?hs), avg_place = of_int (sum_list ?hs)\<rparr>"
    using a0(1) by (auto simp: tally_def split: if_splits)
  have "count a0 \<noteq> 0" using tally_count_zero[OF a0(1)] ne by simp
  then have pos: "0 < int (length ?hs)" using a0_eq by simp
  have "\<forall>x\<in>set ?hs. 1 \<le> x \<and> x \<le> 8"
    using assms(1) hits_nonempty[of _ ps r c] by blast
  from sum_list_bounds[OF this]
  have b: "int (length ?hs) \<le> sum_list ?hs" "sum_list ?hs \<le> 8 * int (length ?hs)" by auto
  have avg: "avg_place a = of_int (sum_list ?hs) / of_int (int (length ?hs))"
    by (simp add: a0(2) a0_eq average_def)
  have "(of_int (int (length ?hs)) :: rat) \<le> of_int (sum_list ?hs)"
    using b(1) by (simp only: of_int_le_iff)
  moreover have "(of_int (sum_list ?hs) :: rat) \<le> 8 * of_int (int (length ?hs))"
    using b(2) by (metis of_int_le_iff of_int_mult of_int_numeral)
  moreover have "(0::rat) < of_int (int (length ?hs))" using pos by simp
  ultimately have "1 \<le> avg_place a \<and> avg_place a \<le> 8"
    unfolding avg by (simp add: le_divide_eq divide_le_eq)
  moreover have "ps \<noteq> []" using ne by auto
  ultimately show ?thesis by simp
qed

theorem average_bounds_witness:
  "list_all (\<lambda>p. 1 \<le> placement p \<and> placement p \<le> 8) example_query \<and>
   (\<exists>t a. analysis example_query = Inr t \<and> lookup t (Round 5) ''Jinx'' = Some a
      \<and> 1 \<le> avg_place a \<and> avg_place a \<le> 8)"
proof -
  have h: "\<forall>p\<in>set example_query. 1 \<le> placement p \<and> placement p \<le> 8"
    by (simp add: example_query_def)
  obtain t a where ta: "analysis example_query = Inr t" "lookup t (Round 5) ''Jinx'' = Some a"
    by (simp add: example_query_def script_defs)
  from average_bounds[OF h ta] h ta show ?thesis
    by (auto simp: list_all_iff)
qed

end
